theory Spec2Isabelle
  imports Complex_Main
begin

section \<open>Errors raised by the code\<close>

text \<open>
  The exceptions that the modelled functions can end in. \<open>RecursionError\<close> is what the
  interpreter raises when the nesting of calls exceeds its limit, \<open>DoesNotExist\<close>,
  \<open>IntegrityError\<close> and \<open>ProtectedError\<close> come from the object-relational mapper,
  \<open>DivisionByZero\<close> from decimal arithmetic, \<open>TypeError\<close> from \<open>int()\<close>.
  \<open>IntegrityError\<close> is also what the database answers to a value that breaks a check of a
  column, and \<open>DataError\<close> what it answers to a number too large for a column. The code
  defines no exception of its own.
\<close>

datatype error =
    RecursionError
  | DoesNotExist
  | IntegrityError
  | ProtectedError
  | DivisionByZero
  | TypeError
  | DataError

section \<open>Categories (apps/core/models.py)\<close>

text \<open>
  The fields of \<open>Category\<close> that the modelled code reads: the primary key, the name and
  the nullable self-reference \<open>parent\<close>, held as the parent's key. The table of categories
  is a list of rows, read in the order of the list.
\<close>

record category =
  cat_id :: nat
  name :: string
  parent :: "nat option"

text \<open>Following the reference \<open>self.parent\<close> fetches the row with that key.\<close>

definition get_category :: "category list \<Rightarrow> nat \<Rightarrow> error + category" where
  "get_category cats i =
     (case find (\<lambda>d. cat_id d = i) cats of None \<Rightarrow> Inl DoesNotExist | Some d \<Rightarrow> Inr d)"

text \<open>\<open>self.children.all()\<close>: the rows whose \<open>parent\<close> is this category.\<close>

definition children :: "category list \<Rightarrow> category \<Rightarrow> category list" where
  "children cats c = filter (\<lambda>d. parent d = Some (cat_id c)) cats"

text \<open>
  \<open>Category.full_path\<close>. The property calls itself on the parent with no guard, so the
  recursion is bounded only by the interpreter: the first argument is the number of nested
  calls that the interpreter still allows, and a call that finds none left raises
  \<open>RecursionError\<close>.
\<close>

fun full_path :: "nat \<Rightarrow> category list \<Rightarrow> category \<Rightarrow> error + string" where
  "full_path 0 cats c = Inl RecursionError"
| "full_path (Suc n) cats c =
     (case parent c of
        None \<Rightarrow> Inr (name c)
      | Some pid \<Rightarrow>
          (case get_category cats pid of
             Inl e \<Rightarrow> Inl e
           | Inr p \<Rightarrow>
               (case full_path n cats p of
                  Inl e \<Rightarrow> Inl e
                | Inr s \<Rightarrow> Inr (s @ '' > '' @ name c))))"

text \<open>
  The loop of \<open>Category.get_descendants\<close> over the children: each child is appended,
  followed by what the recursive call on it returns; an exception of that call ends the loop.
\<close>

fun descendants_loop ::
  "(category \<Rightarrow> error + category list) \<Rightarrow> category list \<Rightarrow> category list \<Rightarrow>
   error + category list" where
  "descendants_loop call [] descendants = Inr descendants"
| "descendants_loop call (child # rest) descendants =
     (case call child of
        Inl e \<Rightarrow> Inl e
      | Inr ds \<Rightarrow> descendants_loop call rest (descendants @ [child] @ ds))"

text \<open>\<open>Category.get_descendants\<close>, with the same bound on nested calls as \<open>full_path\<close>.\<close>

fun get_descendants :: "nat \<Rightarrow> category list \<Rightarrow> category \<Rightarrow> error + category list" where
  "get_descendants 0 cats c = Inl RecursionError"
| "get_descendants (Suc n) cats c =
     descendants_loop (get_descendants n cats) (children cats c) []"

section \<open>Products (apps/core/models.py)\<close>

datatype status = Draft | Published | Archived

text \<open>
  The fields of \<open>Product\<close> that the modelled code reads or writes. \<open>price\<close> and \<open>cost\<close>
  are decimal fields, taken here as exact rationals; \<open>cost\<close> is nullable.
  \<open>stock_quantity\<close> is an integer attribute of the instance, declared as a
  \<open>PositiveIntegerField\<close>: the methods below assign to it whatever their arithmetic gives,
  and the column refuses a negative value when the instance is saved. \<open>tags\<close> holds the keys of the associated tags.
\<close>

record product =
  product_id :: nat
  category_id :: nat
  price :: rat
  cost :: "rat option"
  stock_quantity :: int
  status :: status
  is_featured :: bool
  tags :: "nat list"

text \<open>\<open>Product.is_in_stock\<close>.\<close>

definition is_in_stock :: "product \<Rightarrow> bool" where
  "is_in_stock p = (stock_quantity p > 0)"

text \<open>
  \<open>Product.profit_margin\<close>. The test \<open>if self.cost:\<close> is a truth test: it is false for
  \<open>None\<close> and for a decimal equal to zero. Dividing a non-zero decimal by a zero price raises.
\<close>

definition profit_margin :: "product \<Rightarrow> error + rat option" where
  "profit_margin p =
     (case cost p of
        None \<Rightarrow> Inr None
      | Some c \<Rightarrow>
          if c \<noteq> 0 then
            (if price p = 0 then Inl DivisionByZero
             else Inr (Some (((price p - c) / price p) * 100)))
          else Inr None)"


section \<open>Reviews (apps/core/models.py)\<close>

record review =
  review_product :: nat
  review_user :: nat
  rating :: int
  title :: string
  content :: string
  is_approved :: bool

text \<open>\<open>Review.objects.filter(product=p, user=u)\<close>.\<close>

definition reviews_of :: "review list \<Rightarrow> nat \<Rightarrow> nat \<Rightarrow> review list" where
  "reviews_of reviews p u = filter (\<lambda>r. review_product r = p \<and> review_user r = u) reviews"

text \<open>
  \<open>Review.objects.create\<close> under \<open>unique_together = ['product', 'user']\<close>: the insertion of
  a second row for the same pair raises, as \<open>test_review_unique_constraint\<close> expects.
\<close>

definition create_review :: "review list \<Rightarrow> review \<Rightarrow> error + review list" where
  "create_review reviews r =
     (if reviews_of reviews (review_product r) (review_user r) \<noteq> []
      then Inl IntegrityError
      else Inr (reviews @ [r]))"

section \<open>Cache invalidation (apps/core/signals.py)\<close>

text \<open>The decimal text of a key, as an f-string renders it.\<close>

fun str :: "nat \<Rightarrow> string" where
  "str n =
     (if n < 10 then [''0123456789'' ! n]
      else str (n div 10) @ [''0123456789'' ! (n mod 10)])"

declare str.simps [simp del]

text \<open>The cache maps keys to values; \<open>cache.delete\<close> and \<open>cache.delete_many\<close> remove keys.\<close>

type_synonym 'v cache = "string \<rightharpoonup> 'v"

definition cache_delete :: "string \<Rightarrow> 'v cache \<Rightarrow> 'v cache" where
  "cache_delete k c = c(k := None)"

definition cache_delete_many :: "string list \<Rightarrow> 'v cache \<Rightarrow> 'v cache" where
  "cache_delete_many ks c = fold cache_delete ks c"

text \<open>\<open>invalidate_product_cache\<close>, the handler of \<open>post_save\<close> for products.\<close>

definition invalidate_product_cache :: "product \<Rightarrow> 'v cache \<Rightarrow> 'v cache" where
  "invalidate_product_cache instance c =
     (let cache_keys =
            [''category_products_'' @ str (category_id instance),
             ''featured_products'',
             ''product_stats''];
          c1 = cache_delete_many cache_keys c
      in if tags instance \<noteq> []
         then fold (\<lambda>tag. cache_delete (''tag_products_'' @ str tag)) (tags instance) c1
         else c1)"

text \<open>
  \<open>cleanup_product_cache\<close>, the handler of \<open>post_delete\<close> for products. \<open>instance\<close> is the
  deleted product as it was before the deletion.
\<close>

definition cleanup_product_cache :: "product \<Rightarrow> 'v cache \<Rightarrow> 'v cache" where
  "cleanup_product_cache instance c =
     (let cache_keys =
            [''category_products_'' @ str (category_id instance),
             ''featured_products'',
             ''product_stats'']
      in cache_delete_many cache_keys c)"

section \<open>Views and serializers (apps/core/views.py, apps/core/serializers.py)\<close>

text \<open>
  \<open>CategoryViewSet.products\<close> for the category that \<open>get_object\<close> has found, before
  pagination: the published products of the category and of its descendants.
\<close>

definition products ::
  "nat \<Rightarrow> category list \<Rightarrow> product list \<Rightarrow> category \<Rightarrow> error + product list" where
  "products n cats prods category =
     (case get_descendants n cats category of
        Inl e \<Rightarrow> Inl e
      | Inr descendant_categories \<Rightarrow>
          (let category_ids = [cat_id category] @ map cat_id descendant_categories
           in Inr (filter (\<lambda>p. category_id p \<in> set category_ids \<and> status p = Published)
                     prods)))"

text \<open>\<open>CategorySerializer.get_product_count\<close>.\<close>

definition get_product_count :: "product list \<Rightarrow> category \<Rightarrow> nat" where
  "get_product_count prods obj =
     length (filter (\<lambda>p. category_id p = cat_id obj \<and> status p = Published) prods)"

text \<open>\<open>ProductSerializer.get_review_count\<close>.\<close>

definition get_review_count :: "review list \<Rightarrow> nat \<Rightarrow> nat" where
  "get_review_count reviews p =
     length (filter (\<lambda>r. review_product r = p \<and> is_approved r) reviews)"

text \<open>The payload of a review submission; \<open>is_approved\<close> may be left out and is then true.\<close>

record review_data =
  data_rating :: int
  data_title :: string
  data_content :: string
  data_is_approved :: "bool option"

text \<open>\<open>ReviewSerializer.validate_rating\<close>.\<close>

definition validate_rating :: "int \<Rightarrow> bool" where
  "validate_rating v = (1 \<le> v \<and> v \<le> 5)"

text \<open>
  \<open>serializer.is_valid()\<close>: the framework's checks of the declared fields, taken as the
  parameter \<open>fields_ok\<close>, and the serializer's own \<open>validate_rating\<close>.
\<close>

definition is_valid :: "(review_data \<Rightarrow> bool) \<Rightarrow> review_data \<Rightarrow> bool" where
  "is_valid fields_ok d = (fields_ok d \<and> validate_rating (data_rating d))"

datatype review_response =
    Created review
  | AlreadyReviewed
  | InvalidData
  | Raised error

text \<open>
  \<open>ProductViewSet.add_review\<close> for the product \<open>p\<close> that \<open>get_object\<close> has found and the
  authenticated user \<open>u\<close> of the request: the response and the table of reviews after the
  call. \<open>AlreadyReviewed\<close> and \<open>InvalidData\<close> are the two
  responses with status 400, \<open>Created\<close> the one with status 201.
\<close>

definition add_review ::
  "(review_data \<Rightarrow> bool) \<Rightarrow> review list \<Rightarrow> nat \<Rightarrow> nat \<Rightarrow> review_data \<Rightarrow>
   review_response \<times> review list" where
  "add_review fields_ok reviews p u d =
     (if reviews_of reviews p u \<noteq> [] then (AlreadyReviewed, reviews)
      else if is_valid fields_ok d then
        (let r = \<lparr>review_product = p, review_user = u, rating = data_rating d,
                   title = data_title d, content = data_content d,
                   is_approved = (case data_is_approved d of None \<Rightarrow> True | Some b \<Rightarrow> b)\<rparr>
         in case create_review reviews r of
              Inl e \<Rightarrow> (Raised e, reviews)
            | Inr reviews' \<Rightarrow> (Created r, reviews'))
      else (InvalidData, reviews))"

text \<open>
  What \<open>request.data.get('quantity')\<close> can be, by the outcome of the code's own checks:
  absent (\<open>None\<close>), a value that \<open>int()\<close> converts to the given integer, a value on
  which \<open>int()\<close> raises \<open>ValueError\<close>, which the view catches, or a value of a type that
  \<open>int()\<close> refuses with \<open>TypeError\<close>, which the view does not catch.
\<close>

datatype quantity_field = Missing | Converts int | NotAnInteger | NotConvertible

record stock_request =
  quantity :: quantity_field
  operation :: "string option"

datatype stock_response =
    StockUpdated int
  | BadRequest string
  | StockRaised error

text \<open>
  \<open>product.save(update_fields=['stock_quantity'])\<close> with the value \<open>v\<close> that the view has
  assigned to the instance: the row after the save, or the exception of the database. The
  column is a \<open>PositiveIntegerField\<close>, so the database refuses a negative value with
  \<open>IntegrityError\<close>. It also refuses a value above the largest integer that the column
  holds; that bound belongs to the database backend and is the parameter \<open>max_value\<close> here.
  A refused save leaves the row as it was.
\<close>

definition save_stock_quantity :: "int \<Rightarrow> product \<Rightarrow> int \<Rightarrow> error + product" where
  "save_stock_quantity max_value row v =
     (if v < 0 then Inl IntegrityError
      else if max_value < v then Inl DataError
      else Inr (row\<lparr>stock_quantity := v\<rparr>))"

text \<open>
  The end of \<open>ProductViewSet.update_stock\<close>: the save, and the response with the saved
  stock. An exception of the save is not caught by the view.
\<close>

definition save_and_respond :: "int \<Rightarrow> product \<Rightarrow> int \<Rightarrow> stock_response \<times> product" where
  "save_and_respond max_value p v =
     (case save_stock_quantity max_value p v of
        Inl e \<Rightarrow> (StockRaised e, p)
      | Inr p' \<Rightarrow> (StockUpdated (stock_quantity p'), p'))"

text \<open>
  \<open>ProductViewSet.update_stock\<close> for the product that \<open>get_object\<close> has found, once the
  permission check has passed: the response and the row of the product after the call. An
  absent \<open>operation\<close> defaults to \<open>set\<close>. The product is saved only on the path that
  reaches \<open>product.save\<close>.
\<close>

definition update_stock ::
  "int \<Rightarrow> product \<Rightarrow> stock_request \<Rightarrow> stock_response \<times> product" where
  "update_stock max_value p req =
     (let op = (case operation req of None \<Rightarrow> ''set'' | Some s \<Rightarrow> s) in
      case quantity req of
        Missing \<Rightarrow> (BadRequest ''Quantity is required.'', p)
      | NotAnInteger \<Rightarrow> (BadRequest ''Quantity must be a valid integer.'', p)
      | NotConvertible \<Rightarrow> (StockRaised TypeError, p)
      | Converts q \<Rightarrow>
          if op = ''set'' then
            save_and_respond max_value p (max 0 q)
          else if op = ''add'' then
            save_and_respond max_value p (stock_quantity p + q)
          else if op = ''subtract'' then
            save_and_respond max_value p (max 0 (stock_quantity p - q))
          else (BadRequest ''Invalid operation. Use \"set\", \"add\", or \"subtract\".'', p))"

section \<open>Deleting a category\<close>

text \<open>
  Modelled from the spec: the deletion of a category row, which the object-relational mapper
  performs and which is not in src/; apps/core/models.py only declares the policies
  (\<open>on_delete=CASCADE\<close> for \<open>Category.parent\<close>, \<open>on_delete=PROTECT\<close> for
  \<open>Product.category\<close>). By the spec the self-reference cascades to the children and the
  reference from a product is delete-protected: a category with products cannot be deleted.
  \<open>cascade\<close> collects the keys of the rows that the deletion reaches through \<open>parent\<close>.
\<close>

fun cascade :: "nat \<Rightarrow> category list \<Rightarrow> nat list \<Rightarrow> nat list" where
  "cascade 0 cats ids = ids"
| "cascade (Suc n) cats ids =
     cascade n cats
       (ids @ map cat_id
          (filter (\<lambda>d. cat_id d \<notin> set ids \<and>
                        (case parent d of None \<Rightarrow> False | Some pid \<Rightarrow> pid \<in> set ids))
             cats))"

text \<open>
  Modelled from the spec: \<open>Category.delete\<close>, absent from src/ as said above. The result, and
  the tables of categories and products after the call: a protected reference rejects the
  deletion and leaves both tables as they were.
\<close>

definition delete_category ::
  "category list \<Rightarrow> product list \<Rightarrow> category \<Rightarrow>
   (error + unit) \<times> category list \<times> product list" where
  "delete_category cats prods c =
     (let doomed = cascade (length cats) cats [cat_id c] in
      if filter (\<lambda>p. category_id p \<in> set doomed) prods \<noteq> []
      then (Inl ProtectedError, cats, prods)
      else (Inr (), filter (\<lambda>d. cat_id d \<notin> set doomed) cats, prods))"

section \<open>Invariants of the tables\<close>

text \<open>The edge from a category to each of its children, over the rows of the table.\<close>

definition child_edge :: "category list \<Rightarrow> (category \<times> category) set" where
  "child_edge cats = {(p, c). p \<in> set cats \<and> c \<in> set cats \<and> parent c = Some (cat_id p)}"

text \<open>
  What the database guarantees of the table: keys are unique, and every \<open>parent\<close> is the key
  of a row. The store is acyclic when \<open>acyclic (child_edge cats)\<close>: no category is its own
  ancestor.
\<close>

definition well_formed :: "category list \<Rightarrow> bool" where
  "well_formed cats =
     (distinct (map cat_id cats) \<and>
      (\<forall>c \<in> set cats. \<forall>pid. parent c = Some pid \<longrightarrow> pid \<in> cat_id ` set cats))"

text \<open>At most one review for each pair of product and user.\<close>

definition one_review_per_pair :: "review list \<Rightarrow> bool" where
  "one_review_per_pair reviews =
     distinct (map (\<lambda>r. (review_product r, review_user r)) reviews)"

section \<open>Sample data\<close>

definition electronics :: category where
  "electronics = \<lparr>cat_id = 1, name = ''Electronics'', parent = None\<rparr>"

definition computers :: category where
  "computers = \<lparr>cat_id = 2, name = ''Computers'', parent = Some 1\<rparr>"

definition laptops :: category where
  "laptops = \<lparr>cat_id = 3, name = ''Laptops'', parent = Some 2\<rparr>"

definition sample_categories :: "category list" where
  "sample_categories = [electronics, computers, laptops]"

text \<open>A corrupted table: two categories, each the parent of the other.\<close>

definition ring_a :: category where
  "ring_a = \<lparr>cat_id = 1, name = ''A'', parent = Some 2\<rparr>"

definition ring_b :: category where
  "ring_b = \<lparr>cat_id = 2, name = ''B'', parent = Some 1\<rparr>"

definition ring_categories :: "category list" where
  "ring_categories = [ring_a, ring_b]"

definition test_product :: product where
  "test_product =
     \<lparr>product_id = 1, category_id = 1, price = 9999 / 100, cost = Some 50,
      stock_quantity = 10, status = Published, is_featured = False, tags = []\<rparr>"

definition laptop_product :: product where
  "laptop_product =
     \<lparr>product_id = 2, category_id = 3, price = 10, cost = Some 0,
      stock_quantity = 4, status = Published, is_featured = False, tags = [7]\<rparr>"

definition draft_product :: product where
  "draft_product =
     \<lparr>product_id = 3, category_id = 1, price = 5, cost = None,
      stock_quantity = 0, status = Draft, is_featured = False, tags = []\<rparr>"

definition sample_products :: "product list" where
  "sample_products = [test_product, laptop_product, draft_product]"

definition warm_cache :: "nat cache" where
  "warm_cache = [''category_products_3'' \<mapsto> 1, ''tag_products_7'' \<mapsto> 2]"

definition good_review :: review_data where
  "good_review = \<lparr>data_rating = 5, data_title = ''Excellent product!'',
                  data_content = ''I highly recommend this product.'',
                  data_is_approved = None\<rparr>"

definition second_review :: review_data where
  "second_review = \<lparr>data_rating = 4, data_title = ''Second review'',
                    data_content = ''Trying to add another review'',
                    data_is_approved = None\<rparr>"

section \<open>Facts about the category table\<close>

lemma find_by_id:
  "distinct (map cat_id cats) \<Longrightarrow> p \<in> set cats \<Longrightarrow> find (\<lambda>d. cat_id d = cat_id p) cats = Some p"
proof (induction cats)
  case Nil
  then show ?case by simp
next
  case (Cons a cats)
  then show ?case by (auto simp: image_iff)
qed

lemma get_category_member:
  "distinct (map cat_id cats) \<Longrightarrow> p \<in> set cats \<Longrightarrow> get_category cats (cat_id p) = Inr p"
  by (simp add: get_category_def find_by_id)

lemma get_category_Inr:
  "get_category cats i = Inr p \<Longrightarrow> p \<in> set cats \<and> cat_id p = i"
  by (auto simp: get_category_def find_Some_iff split: option.splits)

lemma finite_child_edge: "finite (child_edge cats)"
proof (rule finite_subset)
  show "child_edge cats \<subseteq> set cats \<times> set cats"
    by (auto simp: child_edge_def)
  show "finite (set cats \<times> set cats)" by simp
qed

lemma full_path_Suc:
  "full_path n cats c = Inr s \<Longrightarrow> full_path (Suc n) cats c = Inr s"
proof (induction n arbitrary: c s)
  case 0
  then show ?case by simp
next
  case (Suc n)
  show ?case
  proof (cases "parent c")
    case None
    with Suc.prems show ?thesis by simp
  next
    case (Some pid)
    with Suc.prems obtain p s' where p: "get_category cats pid = Inr p"
      and s': "full_path n cats p = Inr s'" and s: "s = s' @ '' > '' @ name c"
      by (auto split: sum.splits)
    from Suc.IH [OF s'] have "full_path (Suc n) cats p = Inr s'" .
    with Some p s show ?thesis
      by (subst full_path.simps(2)) (simp del: full_path.simps)
  qed
qed

lemma full_path_mono:
  "n \<le> m \<Longrightarrow> full_path n cats c = Inr s \<Longrightarrow> full_path m cats c = Inr s"
proof (induction m rule: dec_induct)
  case base
  then show ?case .
next
  case (step k)
  then show ?case by (simp only: full_path_Suc)
qed

lemma full_path_returns:
  assumes wf: "well_formed cats" and ac: "acyclic (child_edge cats)"
  shows "c \<in> set cats \<Longrightarrow> \<exists>N s. full_path N cats c = Inr s"
proof (induction c rule: wf_induct_rule [OF finite_acyclic_wf [OF finite_child_edge ac]])
  case (1 c)
  show ?case
  proof (cases "parent c")
    case None
    then have "full_path (Suc 0) cats c = Inr (name c)" by simp
    then show ?thesis by blast
  next
    case (Some pid)
    with wf 1(2) obtain p where p: "p \<in> set cats" "cat_id p = pid"
      by (auto simp: well_formed_def)
    with Some 1(2) have "(p, c) \<in> child_edge cats"
      by (simp add: child_edge_def)
    from 1(1) [OF this p(1)] obtain N s where s: "full_path N cats p = Inr s"
      by blast
    from wf p have "get_category cats pid = Inr p"
      using get_category_member by (auto simp: well_formed_def)
    with Some s have "full_path (Suc N) cats c = Inr (s @ '' > '' @ name c)"
      by simp
    then show ?thesis by blast
  qed
qed

lemma cycle_parent:
  assumes "(c, c) \<in> (child_edge cats)\<^sup>+"
  shows "\<exists>p. (p, c) \<in> child_edge cats \<and> (p, p) \<in> (child_edge cats)\<^sup>+"
proof -
  from tranclD2 [OF assms] obtain p
    where "(c, p) \<in> (child_edge cats)\<^sup>*" and e: "(p, c) \<in> child_edge cats"
    by blast
  then have "(p, p) \<in> (child_edge cats)\<^sup>+"
    by (meson rtrancl_into_trancl2)
  with e show ?thesis by blast
qed

lemma cycle_child:
  assumes "(c, c) \<in> (child_edge cats)\<^sup>+"
  shows "\<exists>d. (c, d) \<in> child_edge cats \<and> (d, d) \<in> (child_edge cats)\<^sup>+"
proof -
  from tranclD [OF assms] obtain d
    where e: "(c, d) \<in> child_edge cats" and "(d, c) \<in> (child_edge cats)\<^sup>*"
    by blast
  then have "(d, d) \<in> (child_edge cats)\<^sup>+"
    by (meson rtrancl_into_trancl1)
  with e show ?thesis by blast
qed

lemma full_path_cycle:
  assumes ids: "distinct (map cat_id cats)"
  shows "(c, c) \<in> (child_edge cats)\<^sup>+ \<Longrightarrow> full_path n cats c = Inl RecursionError"
proof (induction n arbitrary: c)
  case 0
  show ?case by simp
next
  case (Suc n)
  from cycle_parent [OF Suc.prems] obtain p
    where e: "(p, c) \<in> child_edge cats" and p: "(p, p) \<in> (child_edge cats)\<^sup>+"
    by blast
  from e have par: "parent c = Some (cat_id p)" and mem: "p \<in> set cats"
    by (simp_all add: child_edge_def)
  from get_category_member [OF ids mem] have "get_category cats (cat_id p) = Inr p" .
  with par Suc.IH [OF p] show ?case by simp
qed

lemma loop_Inl:
  "descendants_loop call chs acc = Inl e \<Longrightarrow> \<exists>ch \<in> set chs. call ch = Inl e"
  by (induction chs arbitrary: acc) (auto split: sum.splits)

lemma loop_fails:
  "ch \<in> set chs \<Longrightarrow> call ch = Inl e \<Longrightarrow> \<exists>e'. descendants_loop call chs acc = Inl e'"
  by (induction chs arbitrary: acc) (auto split: sum.splits)

lemma loop_all_Inr:
  "(\<And>ch. ch \<in> set chs \<Longrightarrow> call ch = Inr (D ch)) \<Longrightarrow>
   descendants_loop call chs acc = Inr (acc @ concat (map (\<lambda>ch. ch # D ch) chs))"
  by (induction chs arbitrary: acc) simp_all

lemma get_descendants_error:
  "get_descendants n cats c = Inl e \<Longrightarrow> e = RecursionError"
proof (induction n arbitrary: c e)
  case 0
  then show ?case by simp
next
  case (Suc n)
  then have "descendants_loop (get_descendants n cats) (children cats c) [] = Inl e"
    by simp
  from loop_Inl [OF this] Suc.IH show ?case by blast
qed

lemma get_descendants_cycle:
  "(c, c) \<in> (child_edge cats)\<^sup>+ \<Longrightarrow> get_descendants n cats c = Inl RecursionError"
proof (induction n arbitrary: c)
  case 0
  show ?case by simp
next
  case (Suc n)
  from cycle_child [OF Suc.prems] obtain d
    where e: "(c, d) \<in> child_edge cats" and d: "(d, d) \<in> (child_edge cats)\<^sup>+"
    by blast
  from e have "d \<in> set (children cats c)"
    by (simp add: child_edge_def children_def)
  from loop_fails [of d "children cats c" "get_descendants n cats", OF this Suc.IH [OF d]] obtain e'
    where "descendants_loop (get_descendants n cats) (children cats c) [] = Inl e'"
    by blast
  then have r: "get_descendants (Suc n) cats c = Inl e'" by simp
  from get_descendants_error [OF r] r show ?case by simp
qed

lemma children_set: "c \<in> set cats \<Longrightarrow> set (children cats c) = child_edge cats `` {c}"
  by (auto simp: children_def child_edge_def)

lemma distinct_children: "distinct (map cat_id cats) \<Longrightarrow> distinct (children cats c)"
  by (simp add: children_def distinct_map)

lemma unique_parent:
  assumes "distinct (map cat_id cats)"
    and "(a, x) \<in> child_edge cats" and "(b, x) \<in> child_edge cats"
  shows "a = b"
proof -
  from assms(2,3) have "cat_id a = cat_id b" "a \<in> set cats" "b \<in> set cats"
    by (auto simp: child_edge_def)
  moreover from assms(1) have "inj_on cat_id (set cats)"
    by (simp add: distinct_map)
  ultimately show ?thesis by (simp add: inj_on_def)
qed

lemma chain_linear:
  assumes up: "\<And>a b x. (a, x) \<in> E \<Longrightarrow> (b, x) \<in> E \<Longrightarrow> a = b"
  shows "(a, x) \<in> E\<^sup>* \<Longrightarrow> (b, x) \<in> E\<^sup>* \<Longrightarrow> (a, b) \<in> E\<^sup>* \<or> (b, a) \<in> E\<^sup>*"
proof (induction arbitrary: b rule: rtrancl_induct)
  case base
  then show ?case by simp
next
  case (step y z)
  from step.prems show ?case
  proof (cases rule: rtranclE)
    case base
    with step.hyps show ?thesis by auto
  next
    case (step y')
    with up step.hyps(2) have "y' = y" by blast
    with step(1) step.IH show ?thesis by blast
  qed
qed

lemma siblings_apart:
  assumes ids: "distinct (map cat_id cats)" and ac: "acyclic (child_edge cats)"
    and c1: "(c, ch) \<in> child_edge cats" and c2: "(c, ch') \<in> child_edge cats"
    and ne: "ch \<noteq> ch'"
    and r: "(ch, ch') \<in> (child_edge cats)\<^sup>*"
  shows False
proof -
  from r ne have "(ch, ch') \<in> (child_edge cats)\<^sup>+"
    by (simp add: rtrancl_eq_or_trancl)
  from tranclD2 [OF this] obtain z
    where z: "(ch, z) \<in> (child_edge cats)\<^sup>*" "(z, ch') \<in> child_edge cats"
    by blast
  from unique_parent [OF ids z(2) c2] have "z = c" .
  with z(1) c1 have "(c, c) \<in> (child_edge cats)\<^sup>+"
    by (meson rtrancl_into_trancl2)
  with ac show False by (simp add: acyclic_def)
qed

lemma siblings_disjoint:
  assumes ids: "distinct (map cat_id cats)" and ac: "acyclic (child_edge cats)"
    and c1: "(c, ch) \<in> child_edge cats" and c2: "(c, ch') \<in> child_edge cats"
    and ne: "ch \<noteq> ch'"
  shows "(child_edge cats)\<^sup>* `` {ch} \<inter> (child_edge cats)\<^sup>* `` {ch'} = {}"
proof (rule ccontr)
  assume "\<not> ?thesis"
  then obtain x where "(ch, x) \<in> (child_edge cats)\<^sup>*" "(ch', x) \<in> (child_edge cats)\<^sup>*"
    by blast
  from chain_linear [OF unique_parent [OF ids] this]
  have "(ch, ch') \<in> (child_edge cats)\<^sup>* \<or> (ch', ch) \<in> (child_edge cats)\<^sup>*" .
  then show False
    using siblings_apart [OF ids ac c1 c2 ne] siblings_apart [OF ids ac c2 c1] ne
    by blast
qed

lemma trancl_image_unfold: "r\<^sup>+ `` {c} = (\<Union>y \<in> r `` {c}. r\<^sup>* `` {y})"
proof (intro set_eqI iffI)
  fix x assume "x \<in> r\<^sup>+ `` {c}"
  then have "(c, x) \<in> r\<^sup>+" by simp
  from tranclD [OF this] show "x \<in> (\<Union>y \<in> r `` {c}. r\<^sup>* `` {y})" by blast
next
  fix x assume "x \<in> (\<Union>y \<in> r `` {c}. r\<^sup>* `` {y})"
  then obtain y where "(c, y) \<in> r" "(y, x) \<in> r\<^sup>*" by blast
  then have "(c, x) \<in> r\<^sup>+" by (meson rtrancl_into_trancl2)
  then show "x \<in> r\<^sup>+ `` {c}" by simp
qed

lemma rtrancl_image_insert: "r\<^sup>* `` {y} = insert y (r\<^sup>+ `` {y})"
  by (auto simp: rtrancl_eq_or_trancl)


lemma get_descendants_returns:
  assumes ids: "distinct (map cat_id cats)" and ac: "acyclic (child_edge cats)"
  shows "c \<in> set cats \<Longrightarrow>
         \<exists>N ds. (\<forall>n\<ge>N. get_descendants n cats c = Inr ds) \<and>
                set ds = (child_edge cats)\<^sup>+ `` {c} \<and> distinct ds"
proof (induction c rule: wf_induct_rule [OF finite_acyclic_wf_converse [OF finite_child_edge ac]])
  case (1 c)
  let ?E = "child_edge cats"
  let ?chs = "children cats c"
  have chs: "set ?chs = ?E `` {c}"
    using children_set [OF 1(2)] .
  have "\<forall>ch \<in> set ?chs. \<exists>N ds. (\<forall>n\<ge>N. get_descendants n cats ch = Inr ds) \<and>
          set ds = ?E\<^sup>+ `` {ch} \<and> distinct ds"
  proof
    fix ch assume "ch \<in> set ?chs"
    with chs have e: "(c, ch) \<in> ?E" by simp
    then have "ch \<in> set cats" by (simp add: child_edge_def)
    with e 1(1) [of ch] show "\<exists>N ds. (\<forall>n\<ge>N. get_descendants n cats ch = Inr ds) \<and>
          set ds = ?E\<^sup>+ `` {ch} \<and> distinct ds"
      by simp
  qed
  then obtain Nf D where ND:
    "\<And>ch. ch \<in> set ?chs \<Longrightarrow> (\<forall>n\<ge>Nf ch. get_descendants n cats ch = Inr (D ch)) \<and>
          set (D ch) = ?E\<^sup>+ `` {ch} \<and> distinct (D ch)"
    by metis
  define N where "N = Suc (sum_list (map Nf ?chs))"
  define ds where "ds = concat (map (\<lambda>ch. ch # D ch) ?chs)"
  have ret: "\<forall>n\<ge>N. get_descendants n cats c = Inr ds"
  proof (intro allI impI)
    fix n assume "N \<le> n"
    then obtain m where n: "n = Suc m" and m: "sum_list (map Nf ?chs) \<le> m"
      by (cases n) (auto simp: N_def)
    have "\<And>ch. ch \<in> set ?chs \<Longrightarrow> get_descendants m cats ch = Inr (D ch)"
    proof -
      fix ch assume ch: "ch \<in> set ?chs"
      then have "Nf ch \<le> sum_list (map Nf ?chs)"
        by (simp add: member_le_sum_list)
      with m ND [OF ch] show "get_descendants m cats ch = Inr (D ch)" by simp
    qed
    from loop_all_Inr [of ?chs "get_descendants m cats" D "[]", OF this]
    show "get_descendants n cats c = Inr ds"
      by (simp add: n ds_def)
  qed
  have "set ds = (\<Union>ch \<in> set ?chs. insert ch (?E\<^sup>+ `` {ch}))"
    using ND by (auto simp: ds_def)
  also have "\<dots> = (\<Union>ch \<in> ?E `` {c}. ?E\<^sup>* `` {ch})"
    by (simp only: chs rtrancl_image_insert)
  also have "\<dots> = ?E\<^sup>+ `` {c}"
    by (simp only: trancl_image_unfold [symmetric])
  finally have set_ds: "set ds = ?E\<^sup>+ `` {c}" .
  have dchs: "distinct ?chs"
    using distinct_children [OF ids] .
  have "distinct (concat (map (\<lambda>ch. ch # D ch) ?chs))"
  proof (rule distinct_concat)
    have "inj_on (\<lambda>ch. ch # D ch) (set ?chs)"
      by (simp add: inj_on_def)
    with dchs show "distinct (map (\<lambda>ch. ch # D ch) ?chs)"
      by (simp add: distinct_map)
  next
    fix ys assume "ys \<in> set (map (\<lambda>ch. ch # D ch) ?chs)"
    then obtain ch where ch: "ch \<in> set ?chs" and ys: "ys = ch # D ch" by auto
    from ch chs have "(c, ch) \<in> ?E" by simp
    from ac have "(ch, ch) \<notin> ?E\<^sup>+" by (simp add: acyclic_def)
    with ND [OF ch] show "distinct ys" by (simp add: ys)
  next
    fix ys zs
    assume "ys \<in> set (map (\<lambda>ch. ch # D ch) ?chs)" "zs \<in> set (map (\<lambda>ch. ch # D ch) ?chs)"
      and ne: "ys \<noteq> zs"
    then obtain ch ch' where ch: "ch \<in> set ?chs" "ys = ch # D ch"
      and ch': "ch' \<in> set ?chs" "zs = ch' # D ch'"
      by auto
    with ne have "ch \<noteq> ch'" by auto
    moreover from ch(1) ch'(1) chs have "(c, ch) \<in> ?E" "(c, ch') \<in> ?E" by simp_all
    ultimately have "?E\<^sup>* `` {ch} \<inter> ?E\<^sup>* `` {ch'} = {}"
      using siblings_disjoint [OF ids ac] by blast
    moreover have "set ys = ?E\<^sup>* `` {ch}" "set zs = ?E\<^sup>* `` {ch'}"
      using ND [OF ch(1)] ND [OF ch'(1)] ch(2) ch'(2)
      by (simp_all add: rtrancl_image_insert)
    ultimately show "set ys \<inter> set zs = {}" by simp
  qed
  then have "distinct ds" by (simp add: ds_def)
  with ret set_ds show ?case by blast
qed

lemma acyclic_parent_less:
  assumes "\<And>c pid. c \<in> set cats \<Longrightarrow> parent c = Some pid \<Longrightarrow> pid < cat_id c"
  shows "acyclic (child_edge cats)"
proof -
  have "child_edge cats \<subseteq> measure cat_id"
    using assms by (auto simp: child_edge_def)
  then have "wf (child_edge cats)"
    by (rule wf_subset [OF wf_measure])
  then show ?thesis by (rule wf_acyclic)
qed

lemma sample_well_formed: "well_formed sample_categories"
  by (simp add: well_formed_def sample_categories_def electronics_def computers_def laptops_def)

lemma sample_acyclic: "acyclic (child_edge sample_categories)"
  by (rule acyclic_parent_less)
    (auto simp: sample_categories_def electronics_def computers_def laptops_def)

lemma ring_cycle: "(ring_a, ring_a) \<in> (child_edge ring_categories)\<^sup>+"
proof -
  have "(ring_a, ring_b) \<in> child_edge ring_categories"
    by (simp add: child_edge_def ring_categories_def ring_a_def ring_b_def)
  moreover have "(ring_b, ring_a) \<in> child_edge ring_categories"
    by (simp add: child_edge_def ring_categories_def ring_a_def ring_b_def)
  ultimately show ?thesis by (meson trancl.intros)
qed

lemma filter_length_mono:
  "(\<And>x. x \<in> set xs \<Longrightarrow> P x \<Longrightarrow> Q x) \<Longrightarrow> length (filter P xs) \<le> length (filter Q xs)"
  by (induction xs) auto

lemma products_count:
  "products n cats prods c = Inr ps \<Longrightarrow> get_product_count prods c \<le> length ps"
  by (auto simp: products_def get_product_count_def split: sum.splits
      intro!: filter_length_mono)

section \<open>Facts about reviews and deletion\<close>

lemma reviews_of_pair:
  "reviews_of reviews p u \<noteq> [] \<longleftrightarrow> (p, u) \<in> set (map (\<lambda>r. (review_product r, review_user r)) reviews)"
  by (auto simp: reviews_of_def filter_empty_conv)

lemma create_review_unique:
  "one_review_per_pair reviews \<Longrightarrow> create_review reviews r = Inr reviews' \<Longrightarrow>
   one_review_per_pair reviews'"
  unfolding create_review_def one_review_per_pair_def
  by (auto simp: reviews_of_pair split: if_splits)

lemma add_review_keeps_unique:
  "one_review_per_pair reviews \<Longrightarrow> one_review_per_pair (snd (add_review ok reviews p u d))"
  unfolding add_review_def
  by (auto simp: Let_def create_review_unique split: sum.splits)

lemma cascade_keeps: "set ids \<subseteq> set (cascade n cats ids)"
proof (induction n arbitrary: ids)
  case 0
  show ?case by simp
next
  case (Suc n)
  let ?new = "ids @ map cat_id
          (filter (\<lambda>d. cat_id d \<notin> set ids \<and>
                        (case parent d of None \<Rightarrow> False | Some pid \<Rightarrow> pid \<in> set ids))
             cats)"
  have "set ids \<subseteq> set ?new" by simp
  also have "set ?new \<subseteq> set (cascade n cats ?new)" by (rule Suc.IH)
  finally show ?case by simp
qed

section \<open>Cycles in the category table\<close>

text \<open>
  Claim C1, as the code has it. For every table of categories with unique keys whose
  parent relation contains a cycle, \<open>full_path\<close> and \<open>get_descendants\<close> on a category of the
  cycle return no value whatever the number of nested calls allowed: the recursion goes on
  until the interpreter's limit and ends in \<open>RecursionError\<close>. No cycle is detected, and no
  other error is raised.
\<close>

theorem cycle_recursion_error:
  assumes "distinct (map cat_id cats)" and "(c, c) \<in> (child_edge cats)\<^sup>+"
  shows "full_path n cats c = Inl RecursionError \<and>
         get_descendants n cats c = Inl RecursionError"
  using full_path_cycle [OF assms] get_descendants_cycle [OF assms(2)] by simp

theorem cycle_recursion_error_witness:
  "distinct (map cat_id ring_categories) \<and>
   (ring_a, ring_a) \<in> (child_edge ring_categories)\<^sup>+ \<and>
   full_path 50 ring_categories ring_a = Inl RecursionError \<and>
   get_descendants 50 ring_categories ring_a = Inl RecursionError"
proof -
  have d: "distinct (map cat_id ring_categories)"
    by (simp add: ring_categories_def ring_a_def ring_b_def)
  from cycle_recursion_error [OF d ring_cycle, of 50] d ring_cycle show ?thesis
    by (simp del: full_path.simps get_descendants.simps)
qed

text \<open>
  The claim as the spec words it asks for a detected-cycle error that fails fast. On the
  table of two categories that are each other's parent, with the interpreter's usual limit of
  1000 nested calls, both functions use up the whole limit and the error is the
  interpreter's \<open>RecursionError\<close>.
\<close>

theorem cycle_not_detected:
  "full_path 1000 ring_categories ring_a = Inl RecursionError \<and>
   get_descendants 1000 ring_categories ring_a = Inl RecursionError"
  by code_simp

section \<open>Full paths\<close>

text \<open>
  Claim C3. For every category \<open>c\<close> of a well-formed acyclic table, once enough nested calls
  are allowed: if \<open>c\<close> has a parent \<open>P\<close> then \<open>full_path\<close> of \<open>c\<close> is \<open>full_path\<close> of \<open>P\<close>
  followed by the separator \<open>'' > ''\<close> and the name of \<open>c\<close>, and if \<open>c\<close> has no parent then
  \<open>full_path\<close> of \<open>c\<close> is its name.
\<close>

theorem full_path_spec:
  assumes "well_formed cats" and "acyclic (child_edge cats)" and "c \<in> set cats"
  shows "\<exists>N. \<forall>n\<ge>N.
           (case parent c of
              None \<Rightarrow> full_path n cats c = Inr (name c)
            | Some pid \<Rightarrow>
                (\<exists>P s. get_category cats pid = Inr P \<and>
                        full_path n cats P = Inr s \<and>
                        full_path n cats c = Inr (s @ '' > '' @ name c)))"
proof -
  from full_path_returns [OF assms] obtain N s where N: "full_path N cats c = Inr s"
    by blast
  then obtain k where k: "N = Suc k" by (cases N) auto
  show ?thesis
  proof (intro exI allI impI)
    fix n assume "Suc N \<le> n"
    then obtain m where n: "n = Suc m" and m: "N \<le> m" by (cases n) auto
    show "case parent c of
            None \<Rightarrow> full_path n cats c = Inr (name c)
          | Some pid \<Rightarrow>
              (\<exists>P s. get_category cats pid = Inr P \<and>
                      full_path n cats P = Inr s \<and>
                      full_path n cats c = Inr (s @ '' > '' @ name c))"
    proof (cases "parent c")
      case None
      then show ?thesis by (simp add: n)
    next
      case (Some pid)
      with N k obtain P s' where P: "get_category cats pid = Inr P" "full_path k cats P = Inr s'"
        by (auto split: sum.splits)
      from m k have "k \<le> m" by simp
      from full_path_mono [OF this P(2)] have a: "full_path m cats P = Inr s'" .
      from full_path_Suc [OF a] have b: "full_path n cats P = Inr s'"
        by (simp only: n)
      from a Some P(1) have "full_path n cats c = Inr (s' @ '' > '' @ name c)"
        by (simp add: n)
      with b Some P(1) show ?thesis
        by (simp del: full_path.simps)
    qed
  qed
qed

theorem full_path_spec_witness:
  "well_formed sample_categories \<and> acyclic (child_edge sample_categories) \<and>
   computers \<in> set sample_categories \<and>
   (\<exists>N. \<forall>n\<ge>N. \<exists>P s. get_category sample_categories 1 = Inr P \<and>
        full_path n sample_categories P = Inr s \<and>
        full_path n sample_categories computers = Inr (s @ '' > '' @ ''Computers'')) \<and>
   full_path 2 sample_categories computers = Inr ''Electronics > Computers''"
proof -
  have m: "computers \<in> set sample_categories"
    by (simp add: sample_categories_def)
  have p: "parent computers = Some 1" "name computers = ''Computers''"
    by (simp_all add: computers_def)
  from full_path_spec [OF sample_well_formed sample_acyclic m]
  have "\<exists>N. \<forall>n\<ge>N. \<exists>P s. get_category sample_categories 1 = Inr P \<and>
        full_path n sample_categories P = Inr s \<and>
        full_path n sample_categories computers = Inr (s @ '' > '' @ ''Computers'')"
    by (simp only: p option.case)
  moreover have "full_path 2 sample_categories computers = Inr ''Electronics > Computers''"
    by code_simp
  ultimately show ?thesis
    using sample_well_formed sample_acyclic m by blast
qed

section \<open>Descendants\<close>

text \<open>
  Claim C4. For every category \<open>c\<close> of an acyclic table with unique keys, once enough nested
  calls are allowed \<open>get_descendants\<close> returns a list that holds exactly the categories
  reachable from \<open>c\<close> through one or more child edges; the list does not hold \<open>c\<close>, has no
  duplicates, and is empty when \<open>c\<close> has no children.
\<close>

theorem get_descendants_spec:
  assumes "distinct (map cat_id cats)" and "acyclic (child_edge cats)" and "c \<in> set cats"
  shows "\<exists>N ds. (\<forall>n\<ge>N. get_descendants n cats c = Inr ds) \<and>
           set ds = (child_edge cats)\<^sup>+ `` {c} \<and>
           c \<notin> set ds \<and> distinct ds \<and>
           (children cats c = [] \<longrightarrow> ds = [])"
proof -
  from get_descendants_returns [OF assms] obtain N ds
    where r: "\<forall>n\<ge>N. get_descendants n cats c = Inr ds"
      and s: "set ds = (child_edge cats)\<^sup>+ `` {c}" and d: "distinct ds"
    by blast
  from assms(2) s have "c \<notin> set ds"
    by (simp add: acyclic_def)
  moreover have "children cats c = [] \<longrightarrow> ds = []"
  proof
    assume "children cats c = []"
    then have "get_descendants (Suc N) cats c = Inr []" by simp
    with r show "ds = []" by (simp del: get_descendants.simps)
  qed
  ultimately show ?thesis using r s d by blast
qed

theorem get_descendants_spec_witness:
  "distinct (map cat_id sample_categories) \<and> acyclic (child_edge sample_categories) \<and>
   electronics \<in> set sample_categories \<and>
   (\<exists>N ds. (\<forall>n\<ge>N. get_descendants n sample_categories electronics = Inr ds) \<and>
      set ds = (child_edge sample_categories)\<^sup>+ `` {electronics} \<and>
      electronics \<notin> set ds \<and> distinct ds \<and>
      (children sample_categories electronics = [] \<longrightarrow> ds = [])) \<and>
   get_descendants 3 sample_categories electronics = Inr [computers, laptops]"
proof -
  have d: "distinct (map cat_id sample_categories)"
    using sample_well_formed by (simp add: well_formed_def)
  have m: "electronics \<in> set sample_categories"
    by (simp add: sample_categories_def)
  have "get_descendants 3 sample_categories electronics = Inr [computers, laptops]"
    by code_simp
  with get_descendants_spec [OF d sample_acyclic m] d sample_acyclic m show ?thesis
    by blast
qed

section \<open>Product counts under a category\<close>

text \<open>
  Claim C9. For every category \<open>c\<close> of an acyclic table with unique keys, once enough nested
  calls are allowed the published products under \<open>c\<close> and its descendants, as
  \<open>CategoryViewSet.products\<close> lists them, are at least as many as the published products of
  \<open>c\<close> alone, as \<open>get_product_count\<close> counts them.
\<close>

theorem product_count_with_descendants:
  assumes "distinct (map cat_id cats)" and "acyclic (child_edge cats)" and "c \<in> set cats"
  shows "\<exists>N. \<forall>n\<ge>N. \<exists>ps. products n cats prods c = Inr ps \<and>
           get_product_count prods c \<le> length ps"
proof -
  from get_descendants_returns [OF assms] obtain N ds
    where r: "\<forall>n\<ge>N. get_descendants n cats c = Inr ds"
    by blast
  show ?thesis
  proof (rule exI [of _ N], intro allI impI)
    fix n assume "N \<le> n"
    with r have "get_descendants n cats c = Inr ds" by simp
    then obtain ps where ps: "products n cats prods c = Inr ps"
      by (simp add: products_def)
    from products_count [OF ps] ps
    show "\<exists>ps. products n cats prods c = Inr ps \<and> get_product_count prods c \<le> length ps"
      by blast
  qed
qed

theorem product_count_with_descendants_witness:
  "distinct (map cat_id sample_categories) \<and> acyclic (child_edge sample_categories) \<and>
   electronics \<in> set sample_categories \<and>
   (\<exists>N. \<forall>n\<ge>N. \<exists>ps. products n sample_categories sample_products electronics = Inr ps \<and>
      get_product_count sample_products electronics \<le> length ps) \<and>
   products 3 sample_categories sample_products electronics = Inr [test_product, laptop_product] \<and>
   get_product_count sample_products electronics = 1"
proof -
  have d: "distinct (map cat_id sample_categories)"
    using sample_well_formed by (simp add: well_formed_def)
  have m: "electronics \<in> set sample_categories"
    by (simp add: sample_categories_def)
  have "products 3 sample_categories sample_products electronics = Inr [test_product, laptop_product]"
    by code_simp
  moreover have "get_product_count sample_products electronics = 1"
    by code_simp
  ultimately show ?thesis
    using product_count_with_descendants [OF d sample_acyclic m, of sample_products]
      d sample_acyclic m
    by blast
qed

section \<open>Stock reduction\<close>



section \<open>The stock endpoint\<close>

text \<open>
  Claim C10, as the code has it. For every product and every integer quantity, the endpoint
  with operation \<open>set\<close> (also when no operation is given) stores \<open>max 0 quantity\<close> and with
  \<open>subtract\<close> stores \<open>max 0 (stock - quantity)\<close>: both are clamped at zero, so that the
  check of the column never refuses them for being negative. With \<open>add\<close> the sum is not
  clamped: it is stored when it is not negative, and when it is negative the save is refused
  with \<open>IntegrityError\<close> and the stock stays as it was. In each case the value is stored
  only if it is not above the largest integer that the column holds; above it the save is
  refused with \<open>DataError\<close> and the stock stays as it was.
\<close>

theorem update_stock_spec:
  "(max 0 q \<le> mx \<longrightarrow>
      update_stock mx p \<lparr>quantity = Converts q, operation = Some ''set''\<rparr> =
        (StockUpdated (max 0 q), p\<lparr>stock_quantity := max 0 q\<rparr>) \<and>
      update_stock mx p \<lparr>quantity = Converts q, operation = None\<rparr> =
        (StockUpdated (max 0 q), p\<lparr>stock_quantity := max 0 q\<rparr>)) \<and>
   (mx < max 0 q \<longrightarrow>
      update_stock mx p \<lparr>quantity = Converts q, operation = Some ''set''\<rparr> =
        (StockRaised DataError, p) \<and>
      update_stock mx p \<lparr>quantity = Converts q, operation = None\<rparr> =
        (StockRaised DataError, p)) \<and>
   (max 0 (stock_quantity p - q) \<le> mx \<longrightarrow>
      update_stock mx p \<lparr>quantity = Converts q, operation = Some ''subtract''\<rparr> =
        (StockUpdated (max 0 (stock_quantity p - q)),
         p\<lparr>stock_quantity := max 0 (stock_quantity p - q)\<rparr>)) \<and>
   (mx < max 0 (stock_quantity p - q) \<longrightarrow>
      update_stock mx p \<lparr>quantity = Converts q, operation = Some ''subtract''\<rparr> =
        (StockRaised DataError, p)) \<and>
   (0 \<le> stock_quantity p + q \<and> stock_quantity p + q \<le> mx \<longrightarrow>
      update_stock mx p \<lparr>quantity = Converts q, operation = Some ''add''\<rparr> =
        (StockUpdated (stock_quantity p + q), p\<lparr>stock_quantity := stock_quantity p + q\<rparr>)) \<and>
   (stock_quantity p + q < 0 \<longrightarrow>
      update_stock mx p \<lparr>quantity = Converts q, operation = Some ''add''\<rparr> =
        (StockRaised IntegrityError, p)) \<and>
   (0 \<le> stock_quantity p + q \<and> mx < stock_quantity p + q \<longrightarrow>
      update_stock mx p \<lparr>quantity = Converts q, operation = Some ''add''\<rparr> =
        (StockRaised DataError, p)) \<and>
   fst (update_stock mx p \<lparr>quantity = Converts q, operation = Some ''set''\<rparr>) \<noteq>
     StockRaised IntegrityError \<and>
   fst (update_stock mx p \<lparr>quantity = Converts q, operation = Some ''subtract''\<rparr>) \<noteq>
     StockRaised IntegrityError"
  by (auto simp add: update_stock_def save_and_respond_def save_stock_quantity_def)

text \<open>
  A product with a stock of 10, on a column that holds integers up to 2147483647: \<open>set\<close> to
  \<open>-3\<close> stores 0, \<open>subtract\<close> of 15 stores 0, \<open>add\<close> of 5 stores 15, and \<open>add\<close> of
  \<open>-20\<close> is refused.
\<close>

theorem update_stock_spec_witness:
  "max 0 (- 3) \<le> (2147483647 :: int) \<and>
   update_stock 2147483647 test_product \<lparr>quantity = Converts (- 3), operation = Some ''set''\<rparr> =
     (StockUpdated 0, test_product\<lparr>stock_quantity := 0\<rparr>) \<and>
   max 0 (stock_quantity test_product - 15) \<le> 2147483647 \<and>
   update_stock 2147483647 test_product \<lparr>quantity = Converts 15, operation = Some ''subtract''\<rparr> =
     (StockUpdated 0, test_product\<lparr>stock_quantity := 0\<rparr>) \<and>
   0 \<le> stock_quantity test_product + 5 \<and> stock_quantity test_product + 5 \<le> 2147483647 \<and>
   update_stock 2147483647 test_product \<lparr>quantity = Converts 5, operation = Some ''add''\<rparr> =
     (StockUpdated 15, test_product\<lparr>stock_quantity := 15\<rparr>) \<and>
   stock_quantity test_product + (- 20) < 0 \<and>
   update_stock 2147483647 test_product \<lparr>quantity = Converts (- 20), operation = Some ''add''\<rparr> =
     (StockRaised IntegrityError, test_product)"
proof -
  have s: "stock_quantity test_product = 10"
    by (simp add: test_product_def)
  have a: "update_stock 2147483647 test_product
             \<lparr>quantity = Converts (- 3), operation = Some ''set''\<rparr> =
           (StockUpdated 0, test_product\<lparr>stock_quantity := 0\<rparr>)"
    using update_stock_spec [of "- 3" 2147483647 test_product] by simp
  have b: "update_stock 2147483647 test_product
             \<lparr>quantity = Converts 15, operation = Some ''subtract''\<rparr> =
           (StockUpdated 0, test_product\<lparr>stock_quantity := 0\<rparr>)"
    using update_stock_spec [of 15 2147483647 test_product] by (simp add: s)
  have c: "update_stock 2147483647 test_product
             \<lparr>quantity = Converts 5, operation = Some ''add''\<rparr> =
           (StockUpdated 15, test_product\<lparr>stock_quantity := 15\<rparr>)"
    using update_stock_spec [of 5 2147483647 test_product] by (simp add: s)
  have d: "update_stock 2147483647 test_product
             \<lparr>quantity = Converts (- 20), operation = Some ''add''\<rparr> =
           (StockRaised IntegrityError, test_product)"
    using update_stock_spec [of "- 20" 2147483647 test_product] by (simp add: s)
  from a b c d show ?thesis by (simp add: s)
qed

text \<open>
  The claim as the spec words it has \<open>add\<close> store the plain sum for every quantity, and
  \<open>set\<close> store \<open>max 0 quantity\<close> for every quantity. On the product with a stock of 10,
  \<open>add\<close> of \<open>-20\<close> does not store \<open>-10\<close>: the save is refused and the stock stays at 10. On
  a column that holds integers up to 2147483647, \<open>set\<close> to 2147483648 is refused as well.
\<close>

theorem update_stock_add_refused:
  "update_stock 2147483647 test_product \<lparr>quantity = Converts (- 20), operation = Some ''add''\<rparr> =
     (StockRaised IntegrityError, test_product) \<and>
   stock_quantity (snd (update_stock 2147483647 test_product
     \<lparr>quantity = Converts (- 20), operation = Some ''add''\<rparr>)) = 10 \<and>
   update_stock 2147483647 test_product \<lparr>quantity = Converts 2147483648, operation = Some ''set''\<rparr> =
     (StockRaised DataError, test_product)"
  by (simp add: update_stock_def save_and_respond_def save_stock_quantity_def test_product_def)

section \<open>One review for each product and user\<close>

text \<open>
  Claim C6. When a review by the user for the product already exists, a further submission
  is rejected and the table of reviews stays as it was, so that no count of the product's
  reviews changes; and a table with at most one review for each pair of product and user
  still has at most one for each pair after any submission.
\<close>

theorem add_review_once:
  "(reviews_of reviews p u \<noteq> [] \<longrightarrow>
      add_review ok reviews p u d = (AlreadyReviewed, reviews)) \<and>
   (one_review_per_pair reviews \<longrightarrow>
      one_review_per_pair (snd (add_review ok reviews p u d)) \<and>
      length (reviews_of (snd (add_review ok reviews p u d)) p u) \<le> 1)"
proof (intro conjI impI)
  assume "reviews_of reviews p u \<noteq> []"
  then show "add_review ok reviews p u d = (AlreadyReviewed, reviews)"
    by (simp add: add_review_def)
next
  assume "one_review_per_pair reviews"
  then show "one_review_per_pair (snd (add_review ok reviews p u d))"
    by (rule add_review_keeps_unique)
next
  assume "one_review_per_pair reviews"
  then have "one_review_per_pair (snd (add_review ok reviews p u d))"
    by (rule add_review_keeps_unique)
  then have "distinct (map (\<lambda>r. (review_product r, review_user r))
      (reviews_of (snd (add_review ok reviews p u d)) p u))"
    unfolding one_review_per_pair_def reviews_of_def by (rule distinct_map_filter)
  moreover have "set (map (\<lambda>r. (review_product r, review_user r))
      (reviews_of (snd (add_review ok reviews p u d)) p u)) \<subseteq> {(p, u)}"
    by (auto simp: reviews_of_def)
  ultimately have "length (map (\<lambda>r. (review_product r, review_user r))
      (reviews_of (snd (add_review ok reviews p u d)) p u)) \<le> card {(p, u)}"
    by (metis distinct_card card_mono finite.emptyI finite.insertI)
  then show "length (reviews_of (snd (add_review ok reviews p u d)) p u) \<le> 1"
    by simp
qed

theorem add_review_once_witness:
  "one_review_per_pair [] \<and>
   fst (add_review (\<lambda>d. True) [] 1 1 good_review) \<noteq> AlreadyReviewed \<and>
   reviews_of (snd (add_review (\<lambda>d. True) [] 1 1 good_review)) 1 1 \<noteq> [] \<and>
   add_review (\<lambda>d. True) (snd (add_review (\<lambda>d. True) [] 1 1 good_review)) 1 1 second_review =
     (AlreadyReviewed, snd (add_review (\<lambda>d. True) [] 1 1 good_review)) \<and>
   get_review_count (snd (add_review (\<lambda>d. True) [] 1 1 good_review)) 1 = 1 \<and>
   get_review_count
     (snd (add_review (\<lambda>d. True) (snd (add_review (\<lambda>d. True) [] 1 1 good_review)) 1 1 second_review)) 1 = 1 \<and>
   length (reviews_of
     (snd (add_review (\<lambda>d. True) (snd (add_review (\<lambda>d. True) [] 1 1 good_review)) 1 1 second_review)) 1 1) \<le> 1"
proof -
  let ?s1 = "snd (add_review (\<lambda>d. True) [] 1 1 good_review)"
  have s1: "?s1 = [\<lparr>review_product = 1, review_user = 1, rating = 5,
       title = ''Excellent product!'', content = ''I highly recommend this product.'',
       is_approved = True\<rparr>]"
    by (simp add: add_review_def reviews_of_def is_valid_def validate_rating_def
        good_review_def create_review_def Let_def)
  have a: "one_review_per_pair []" by (simp add: one_review_per_pair_def)
  have b: "fst (add_review (\<lambda>d. True) [] 1 1 good_review) \<noteq> AlreadyReviewed"
    by (simp add: add_review_def reviews_of_def is_valid_def validate_rating_def
        good_review_def create_review_def Let_def)
  have c: "reviews_of ?s1 1 1 \<noteq> []"
    unfolding s1 by (simp add: reviews_of_def)
  have u: "one_review_per_pair ?s1"
    unfolding s1 by (simp add: one_review_per_pair_def)
  from add_review_once [of ?s1 1 1 "\<lambda>d. True" second_review] c u
  have d: "add_review (\<lambda>d. True) ?s1 1 1 second_review = (AlreadyReviewed, ?s1)"
    and e: "length (reviews_of (snd (add_review (\<lambda>d. True) ?s1 1 1 second_review)) 1 1) \<le> 1"
    by blast+
  have f: "get_review_count ?s1 1 = 1"
    unfolding s1 by (simp add: get_review_count_def)
  from a b c d e f show ?thesis by (simp del: One_nat_def)
qed

section \<open>Deleting a category that has products\<close>

text \<open>
  Claim C7. For every category that a product refers to, deleting the category fails with
  the protection error, and the tables of categories and of products are unchanged after
  the failed deletion.
\<close>

theorem delete_category_protected:
  assumes "p \<in> set prods" and "category_id p = cat_id c"
  shows "delete_category cats prods c = (Inl ProtectedError, cats, prods)"
proof -
  have "cat_id c \<in> set (cascade (length cats) cats [cat_id c])"
    using cascade_keeps [of "[cat_id c]"] by auto
  with assms have "p \<in> set (filter (\<lambda>p. category_id p \<in> set (cascade (length cats) cats [cat_id c])) prods)"
    by simp
  then have "filter (\<lambda>p. category_id p \<in> set (cascade (length cats) cats [cat_id c])) prods \<noteq> []"
    by (metis empty_iff empty_set)
  then show ?thesis by (simp add: delete_category_def)
qed

theorem delete_category_protected_witness:
  "test_product \<in> set sample_products \<and> category_id test_product = cat_id electronics \<and>
   delete_category sample_categories sample_products electronics =
     (Inl ProtectedError, sample_categories, sample_products)"
proof -
  have a: "test_product \<in> set sample_products"
    by (simp add: sample_products_def)
  have b: "category_id test_product = cat_id electronics"
    by (simp add: test_product_def electronics_def)
  from delete_category_protected [OF a b] a b show ?thesis by simp
qed

section \<open>Cache keys on product deletion\<close>

lemma str_3: "str 3 = ''3''"
  by (simp add: str.simps)

lemma str_7: "str 7 = ''7''"
  by (simp add: str.simps)

text \<open>
  Claim C2 asks that the deletion of a product invalidates the same keys as its creation or
  update, the tag keys among them. On a product of category 3 with tag 7, the handler of
  the deletion removes the category key and leaves the key of the tag in the cache, while
  the handler of creation and update removes both.
\<close>

theorem cleanup_product_cache_keeps_tag_key:
  "cleanup_product_cache laptop_product warm_cache ''tag_products_7'' = Some 2 \<and>
   cleanup_product_cache laptop_product warm_cache ''category_products_3'' = None \<and>
   invalidate_product_cache laptop_product warm_cache ''tag_products_7'' = None \<and>
   invalidate_product_cache laptop_product warm_cache ''category_products_3'' = None"
  by (simp add: cleanup_product_cache_def invalidate_product_cache_def cache_delete_many_def
      cache_delete_def laptop_product_def warm_cache_def str_3 str_7)

section \<open>Profit margin\<close>

lemma profit_margin_formula:
  "cost p = Some c \<Longrightarrow> c \<noteq> 0 \<Longrightarrow> price p \<noteq> 0 \<Longrightarrow>
   profit_margin p = Inr (Some (((price p - c) / price p) * 100))"
  by (simp add: profit_margin_def)

lemma profit_margin_no_cost: "cost p = None \<Longrightarrow> profit_margin p = Inr None"
  by (simp add: profit_margin_def)

text \<open>
  Claim C8 asks for the margin whenever the cost is present. On a product with price 10 and
  a cost of zero, which is present, \<open>profit_margin\<close> returns \<open>None\<close> where the formula
  gives 100.
\<close>

theorem profit_margin_zero_cost:
  "cost laptop_product = Some 0 \<and> price laptop_product = 10 \<and>
   profit_margin laptop_product = Inr None \<and>
   ((price laptop_product - 0) / price laptop_product) * 100 = 100"
  by (simp add: profit_margin_def laptop_product_def)

end
